theory Spec2Isabelle
  imports Main "HOL-Library.Sublist" "HOL-Library.Multiset"
begin

section \<open>Python values and the outside world\<close>

text \<open>
  The scraper \<^verbatim>\<open>auto_scrap_100/data_scraper2.py\<close> talks to a search backend, to web
  servers and to the file system. Each of them is an oracle of the environment record
  below; the program itself is translated line by line. Python exceptions are values of
  \<open>py_exception\<close>; a function that can raise returns \<open>py_exception + 'a\<close>.
  Console output and \<^verbatim>\<open>time.sleep\<close> of a non-negative constant have no effect on
  the values computed and are left out.
\<close>

datatype py_exception =
  ZeroDivisionError | ValueError | OSError | RequestException | SearchException

text \<open>The two attributes of \<^verbatim>\<open>urlparse(url)\<close> that the program reads.\<close>

record parse_result =
  netloc :: string
  path :: string

text \<open>
  A \<^verbatim>\<open>requests\<close> response: reading \<^verbatim>\<open>response.content\<close> of a streamed
  response downloads the body and can raise.
\<close>

record response =
  status_code :: int
  headers :: "string \<rightharpoonup> string"
  content :: "py_exception + string"

text \<open>One search result is a dictionary; the program reads its key \<^verbatim>\<open>image\<close>.\<close>

type_synonym result = "string \<rightharpoonup> string"

text \<open>
  What one call of \<^verbatim>\<open>ddgs.images\<close> delivers when it is iterated: all its results,
  or some results followed by an exception (none at all when the call itself raises).
\<close>

datatype ddgs_reply = Results "result list" | Interrupted "result list"

text \<open>
  The environment. \<open>session_get n url\<close> is the outcome of the request that is issued
  when \<open>n\<close> requests have been issued before it, \<open>write_fails n p\<close> tells whether writing
  the file \<open>p\<close> after that request raises, and \<open>ddgs_images n\<close> is the reply to the
  search issued after \<open>n\<close> earlier searches. \<open>set_iteration\<close> gives the order in which
  Python iterates over a set, from the order in which its elements were inserted.
\<close>

record env =
  urlparse :: "string \<Rightarrow> py_exception + parse_result"
  md5_hexdigest :: "string \<Rightarrow> string"
  guess_extension :: "string \<Rightarrow> string option"
  session_get :: "nat \<Rightarrow> string \<Rightarrow> py_exception + response"
  write_fails :: "nat \<Rightarrow> string \<Rightarrow> bool"
  ddgs_images :: "nat \<Rightarrow> string \<Rightarrow> int \<Rightarrow> ddgs_reply"
  set_iteration :: "string list \<Rightarrow> string list"
  makedirs_fails :: "string \<Rightarrow> bool"

text \<open>
  The state of one run. The three Python sets are \<open>seen_urls\<close>, \<open>seen_hashes\<close> and
  \<open>bad_domains\<close>; the first two are kept as the list of their elements in insertion
  order, since the truncation step depends on an order. \<open>written\<close> is the trace of the
  files written (path and bytes), \<open>requests\<close> the trace of the URLs requested and
  \<open>searches\<close> the trace of the searches issued (keyword and \<^verbatim>\<open>max_results\<close>).
\<close>

record world =
  seen_urls :: "string list"
  seen_hashes :: "string list"
  bad_domains :: "string set"
  written :: "(string \<times> string) list"
  requests :: "string list"
  searches :: "(string \<times> int) list"

subsection \<open>String and path functions of the Python library\<close>

text \<open>\<^verbatim>\<open>s.lstrip(c)\<close> for a single character \<open>c\<close>.\<close>

definition lstrip :: "char \<Rightarrow> string \<Rightarrow> string" where
  "lstrip c s = dropWhile (\<lambda>x. x = c) s"

text \<open>\<^verbatim>\<open>s.split(c)[0]\<close>: the part of \<open>s\<close> before the first \<open>c\<close>.\<close>

definition split_first :: "char \<Rightarrow> string \<Rightarrow> string" where
  "split_first c s = takeWhile (\<lambda>x. x \<noteq> c) s"

text \<open>\<^verbatim>\<open>s.replace(a, b)\<close> for single characters.\<close>

definition replace :: "char \<Rightarrow> char \<Rightarrow> string \<Rightarrow> string" where
  "replace a b s = map (\<lambda>x. if x = a then b else x) s"

text \<open>\<^verbatim>\<open>d.get(k, default)\<close>.\<close>

definition dict_get :: "('k \<rightharpoonup> 'v) \<Rightarrow> 'k \<Rightarrow> 'v \<Rightarrow> 'v" where
  "dict_get d k dflt = (case d k of None \<Rightarrow> dflt | Some v \<Rightarrow> v)"

text \<open>\<^verbatim>\<open>s.rfind(c)\<close>: the last index of \<open>c\<close> in \<open>s\<close>, or \<open>-1\<close>.\<close>

definition rfind :: "char \<Rightarrow> string \<Rightarrow> int" where
  "rfind c s =
     (if c \<in> set s then int (length s) - 1 - int (length (takeWhile (\<lambda>x. x \<noteq> c) (rev s)))
      else - 1)"

text \<open>
  \<^verbatim>\<open>os.path.splitext\<close> of \<^verbatim>\<open>posixpath\<close>: the extension starts at the last dot
  after the last slash, unless only dots stand between that slash and the dot.
\<close>

definition splitext :: "string \<Rightarrow> string \<times> string" where
  "splitext p =
     (let sepIndex = rfind CHR ''/'' p;
          dotIndex = rfind CHR ''.'' p
      in if dotIndex > sepIndex \<and>
            list_ex (\<lambda>x. x \<noteq> CHR ''.'')
              (take (nat (dotIndex - (sepIndex + 1))) (drop (nat (sepIndex + 1)) p))
         then (take (nat dotIndex) p, drop (nat dotIndex) p)
         else (p, []))"

text \<open>\<^verbatim>\<open>os.path.join(a, b)\<close> of \<^verbatim>\<open>posixpath\<close>.\<close>

definition path_join :: "string \<Rightarrow> string \<Rightarrow> string" where
  "path_join a b =
     (if prefix ''/'' b then b
      else if a = [] \<or> suffix ''/'' a then a @ b
      else a @ ''/'' @ b)"

section \<open>The content fetcher\<close>

text \<open>\<^verbatim>\<open>get_extension_from_url_or_content\<close>, lines 22 to 31.\<close>

definition get_extension_from_url_or_content ::
  "env \<Rightarrow> string \<Rightarrow> response \<Rightarrow> py_exception + string" where
  "get_extension_from_url_or_content e url resp =
     (case urlparse e url of
        Inl exn \<Rightarrow> Inl exn
      | Inr parsed \<Rightarrow>
          (let ext = snd (splitext (path parsed)) in
           if ext \<noteq> [] \<and> length ext \<le> 5 then Inr (lstrip CHR ''.'' ext)
           else
             (let content_type =
                    split_first CHR '';'' (dict_get (headers resp) ''content-type'' []);
                  guessed = guess_extension e content_type
              in case guessed of
                   None \<Rightarrow> Inr ''jpg''
                 | Some g \<Rightarrow> if g \<noteq> [] then Inr (lstrip CHR ''.'' g) else Inr ''jpg'')))"

text \<open>\<^verbatim>\<open>set.add\<close> on a set kept in insertion order.\<close>

definition set_add :: "'a \<Rightarrow> 'a list \<Rightarrow> 'a list" where
  "set_add x xs = (if x \<in> set xs then xs else xs @ [x])"

text \<open>
  One pass through the body of the retry loop of \<^verbatim>\<open>download_image\<close>, lines 39 to
  56. The result \<open>Some r\<close> is a \<^verbatim>\<open>return r\<close>; \<open>None\<close> means that the loop goes on,
  either because the response was not accepted or because an exception was caught.
\<close>

definition download_attempt ::
  "env \<Rightarrow> string \<Rightarrow> string \<Rightarrow> string \<Rightarrow> world \<Rightarrow> string option option \<times> world" where
  "download_attempt e url folder person_name w =
     (let n = length (requests w);
          w1 = w\<lparr>requests := requests w @ [url]\<rparr>
      in case session_get e n url of
           Inl exn \<Rightarrow> (None, w1)
         | Inr resp \<Rightarrow>
             if status_code resp = 200 \<and>
                prefix ''image'' (dict_get (headers resp) ''content-type'' [])
             then
               (case content resp of
                  Inl exn \<Rightarrow> (None, w1)
                | Inr img_bytes \<Rightarrow>
                    (let img_hash = md5_hexdigest e img_bytes in
                     if img_hash \<in> set (seen_hashes w1) then (Some None, w1)
                     else
                       (let w2 = w1\<lparr>seen_hashes := set_add img_hash (seen_hashes w1)\<rparr> in
                        case get_extension_from_url_or_content e url resp of
                          Inl exn \<Rightarrow> (None, w2)
                        | Inr ext \<Rightarrow>
                            (let file_path =
                                   path_join folder
                                     (replace CHR '' '' CHR ''_'' person_name @ ''_'' @
                                      img_hash @ ''.'' @ ext)
                             in if write_fails e n file_path then (None, w2)
                                else (Some (Some file_path),
                                      w2\<lparr>written := written w2 @ [(file_path, img_bytes)]\<rparr>)))))
             else (None, w1))"

text \<open>The loop \<^verbatim>\<open>for attempt in range(max_retries)\<close>, line 38.\<close>

fun retry_loop ::
  "env \<Rightarrow> string \<Rightarrow> string \<Rightarrow> string \<Rightarrow> nat \<Rightarrow> world \<Rightarrow> string option option \<times> world" where
  "retry_loop e url folder person_name 0 w = (None, w)"
| "retry_loop e url folder person_name (Suc k) w =
     (case download_attempt e url folder person_name w of
        (Some r, w') \<Rightarrow> (Some r, w')
      | (None, w') \<Rightarrow> retry_loop e url folder person_name k w')"

text \<open>
  \<^verbatim>\<open>download_image\<close>, lines 33 to 59. \<^verbatim>\<open>urlparse\<close> in line 34 stands outside the
  \<^verbatim>\<open>try\<close>, so its exception leaves the function.
\<close>

definition download_image ::
  "env \<Rightarrow> string \<Rightarrow> string \<Rightarrow> string \<Rightarrow> int \<Rightarrow> world \<Rightarrow> (py_exception + string option) \<times> world"
  where
  "download_image e url folder person_name max_retries w =
     (case urlparse e url of
        Inl exn \<Rightarrow> (Inl exn, w)
      | Inr parsed \<Rightarrow>
          if netloc parsed \<in> bad_domains w then (Inr None, w)
          else
            (case retry_loop e url folder person_name (nat max_retries) w of
               (Some r, w') \<Rightarrow> (Inr r, w')
             | (None, w') \<Rightarrow>
                 (Inr None, w'\<lparr>bad_domains := insert (netloc parsed) (bad_domains w')\<rparr>)))"

section \<open>The search provider adapter\<close>

text \<open>
  Lines 68 to 71: one result of the backend is looked at. A URL that is missing or
  empty, or that is in \<open>seen_urls\<close> already, is skipped; any other URL is added to
  \<open>seen_urls\<close> and appended to \<open>urls\<close>.
\<close>

definition take_result :: "result \<Rightarrow> string list \<times> string list \<Rightarrow> string list \<times> string list" where
  "take_result r acc =
     (case acc of (urls, seen) \<Rightarrow>
        (case r ''image'' of
           None \<Rightarrow> (urls, seen)
         | Some url \<Rightarrow>
             if url \<noteq> [] \<and> url \<notin> set seen then (urls @ [url], set_add url seen)
             else (urls, seen)))"

text \<open>
  The loop \<^verbatim>\<open>for r in results\<close>, lines 67 to 73. The flag tells whether the loop was
  left by \<^verbatim>\<open>break\<close>; the test of line 72 comes after the result was looked at.
\<close>

fun gather ::
  "int \<Rightarrow> result list \<Rightarrow> string list \<Rightarrow> string list \<Rightarrow> bool \<times> string list \<times> string list" where
  "gather total_needed [] urls seen = (False, urls, seen)"
| "gather total_needed (r # rs) urls seen =
     (case take_result r (urls, seen) of
        (urls', seen') \<Rightarrow>
          if int (length urls') \<ge> total_needed then (True, urls', seen')
          else gather total_needed rs urls' seen')"

text \<open>
  One pass through the body of the retry loop of \<^verbatim>\<open>fetch_image_urls\<close>, lines 63
  to 77: \<open>Some urls\<close> is \<^verbatim>\<open>return urls\<close>, \<open>None\<close> a caught exception. An exception
  of the backend is met only when the loop has consumed every result before it.
\<close>

definition search_attempt ::
  "env \<Rightarrow> string \<Rightarrow> int \<Rightarrow> world \<Rightarrow> string list option \<times> world" where
  "search_attempt e keyword total_needed w =
     (let n = length (searches w);
          w1 = w\<lparr>searches := searches w @ [(keyword, total_needed * 5)]\<rparr>
      in case ddgs_images e n keyword (total_needed * 5) of
           Results rs \<Rightarrow>
             (case gather total_needed rs [] (seen_urls w1) of
                (stopped, urls, seen) \<Rightarrow> (Some urls, w1\<lparr>seen_urls := seen\<rparr>))
         | Interrupted rs \<Rightarrow>
             (case gather total_needed rs [] (seen_urls w1) of
                (stopped, urls, seen) \<Rightarrow>
                  if stopped then (Some urls, w1\<lparr>seen_urls := seen\<rparr>)
                  else (None, w1\<lparr>seen_urls := seen\<rparr>)))"

fun search_loop ::
  "env \<Rightarrow> string \<Rightarrow> int \<Rightarrow> nat \<Rightarrow> world \<Rightarrow> string list option \<times> world" where
  "search_loop e keyword total_needed 0 w = (None, w)"
| "search_loop e keyword total_needed (Suc k) w =
     (case search_attempt e keyword total_needed w of
        (Some urls, w') \<Rightarrow> (Some urls, w')
      | (None, w') \<Rightarrow> search_loop e keyword total_needed k w')"

text \<open>\<^verbatim>\<open>fetch_image_urls\<close>, lines 61 to 78.\<close>

definition fetch_image_urls ::
  "env \<Rightarrow> string \<Rightarrow> int \<Rightarrow> int \<Rightarrow> world \<Rightarrow> string list \<times> world" where
  "fetch_image_urls e keyword total_needed retries w =
     (case search_loop e keyword total_needed (nat retries) w of
        (Some urls, w') \<Rightarrow> (urls, w')
      | (None, w') \<Rightarrow> ([], w'))"

section \<open>The download orchestrator\<close>

text \<open>
  \<^verbatim>\<open>download_images\<close> calls \<^verbatim>\<open>fetch_image_urls\<close> and \<^verbatim>\<open>download_image\<close>
  through their module-level names, so a test can put stubs in their place. The loop is
  therefore defined over an adapter and a fetcher, and \<open>download_images\<close> below is its
  instance at the two functions of the module.
\<close>

type_synonym adapter = "string \<Rightarrow> int \<Rightarrow> world \<Rightarrow> string list \<times> world"

type_synonym fetcher =
  "string \<Rightarrow> string \<Rightarrow> string \<Rightarrow> world \<Rightarrow> (py_exception + string option) \<times> world"

record counters =
  downloaded_count :: int
  batch_number :: int
  term_index :: int

text \<open>
  Lines 110 to 114: every URL of the batch is submitted to the pool. The workers are
  run one after the other, in the order of submission; this is the schedule of a pool
  with a single worker. Each worker runs to its end, also when the collecting loop
  stops early, because leaving the \<^verbatim>\<open>with\<close> block waits for the pool.
\<close>

fun dispatch ::
  "fetcher \<Rightarrow> string list \<Rightarrow> string \<Rightarrow> string \<Rightarrow> world
     \<Rightarrow> (py_exception + string option) list \<times> world" where
  "dispatch fetch [] folder save_name w = ([], w)"
| "dispatch fetch (url # urls) folder save_name w =
     (case fetch url folder save_name w of
        (r, w') \<Rightarrow>
          (case dispatch fetch urls folder save_name w' of
             (rs, w'') \<Rightarrow> (r # rs, w'')))"

text \<open>
  Lines 116 to 125: the results are counted. An exception of a worker is caught and
  skipped; a result counts when it is neither \<^verbatim>\<open>None\<close> nor the empty string.
\<close>

fun collect :: "int \<Rightarrow> int \<Rightarrow> (py_exception + string option) list \<Rightarrow> int" where
  "collect num_images dc [] = dc"
| "collect num_images dc (Inl exn # rs) = collect num_images dc rs"
| "collect num_images dc (Inr r # rs) =
     (let dc' = (if r \<noteq> None \<and> r \<noteq> Some [] then dc + 1 else dc)
      in if dc' \<ge> num_images then dc' else collect num_images dc' rs)"

text \<open>
  Lines 131 to 134: \<^verbatim>\<open>set(list(s)[-25000:])\<close> when \<^verbatim>\<open>len(s) > 50000\<close>. The list
  of a set is in the iteration order of the set, and the new set is filled in the order
  of the slice.
\<close>

definition truncate_seen :: "(string list \<Rightarrow> string list) \<Rightarrow> string list \<Rightarrow> string list" where
  "truncate_seen iteration s =
     (if length s > 50000
      then drop (length (iteration s) - 25000) (iteration s)
      else s)"

datatype flow = Raise py_exception | Break | Continue

text \<open>
  One pass through the body of the \<^verbatim>\<open>while\<close> loop, lines 96 to 138.
  \<^verbatim>\<open>ThreadPoolExecutor\<close> raises \<^verbatim>\<open>ValueError\<close> for a worker count below one, and
  \<^verbatim>\<open>time.sleep\<close> for a negative duration.
\<close>

definition download_round ::
  "adapter \<Rightarrow> fetcher \<Rightarrow> (string list \<Rightarrow> string list) \<Rightarrow> string list \<Rightarrow> string \<Rightarrow> string
     \<Rightarrow> int \<Rightarrow> int \<Rightarrow> int \<Rightarrow> int \<Rightarrow> counters \<Rightarrow> world \<Rightarrow> flow \<times> counters \<times> world" where
  "download_round adapt fetch iteration search_terms folder save_name
       num_images threads batch_size pause_time c w =
     (if search_terms = [] then (Raise ZeroDivisionError, c, w)
      else
        (let keyword = search_terms ! nat (term_index c mod int (length search_terms));
             remaining = num_images - downloaded_count c;
             batch = min batch_size remaining
         in case adapt keyword batch w of
              (image_urls, w1) \<Rightarrow>
                if image_urls = [] then
                  (let c1 = c\<lparr>term_index := term_index c + 1\<rparr>
                   in if term_index c1 \<ge> int (length search_terms) then (Break, c1, w1)
                      else (Continue, c1, w1))
                else if threads \<le> 0 then (Raise ValueError, c, w1)
                else
                  (case dispatch fetch image_urls folder save_name w1 of
                     (results, w2) \<Rightarrow>
                       (let c2 = \<lparr>downloaded_count =
                                    collect num_images (downloaded_count c) results,
                                  batch_number = batch_number c + 1,
                                  term_index = term_index c + 1\<rparr>;
                            w3 = w2\<lparr>seen_urls := truncate_seen iteration (seen_urls w2),
                                    seen_hashes := truncate_seen iteration (seen_hashes w2)\<rparr>
                        in if downloaded_count c2 < num_images \<and> pause_time < 0
                           then (Raise ValueError, c2, w3)
                           else (Continue, c2, w3)))))"

text \<open>
  The loop \<^verbatim>\<open>while downloaded_count < num_images\<close>, line 95. It need not end, so
  the result is an option: \<open>None\<close> is a run that never returns. A run that returns gives
  the exception that left the function, if any, with the counters and the state.
\<close>

partial_function (option) download_loop ::
  "adapter \<Rightarrow> fetcher \<Rightarrow> (string list \<Rightarrow> string list) \<Rightarrow> string list \<Rightarrow> string \<Rightarrow> string
     \<Rightarrow> int \<Rightarrow> int \<Rightarrow> int \<Rightarrow> int \<Rightarrow> counters \<Rightarrow> world
     \<Rightarrow> (py_exception option \<times> counters \<times> world) option" where
  "download_loop adapt fetch iteration search_terms folder save_name
       num_images threads batch_size pause_time c w =
     (if downloaded_count c < num_images then
        (case download_round adapt fetch iteration search_terms folder save_name
                num_images threads batch_size pause_time c w of
           (Raise exn, c', w') \<Rightarrow> Some (Some exn, c', w')
         | (Break, c', w') \<Rightarrow> Some (None, c', w')
         | (Continue, c', w') \<Rightarrow>
             download_loop adapt fetch iteration search_terms folder save_name
               num_images threads batch_size pause_time c' w')
      else Some (None, c, w))"

definition initial_counters :: counters where
  "initial_counters = \<lparr>downloaded_count = 0, batch_number = 0, term_index = 0\<rparr>"

definition initial_world :: world where
  "initial_world =
     \<lparr>seen_urls = [], seen_hashes = [], bad_domains = {}, written = [], requests = [],
      searches = []\<rparr>"

text \<open>\<^verbatim>\<open>download_images\<close>, lines 80 to 140, over an adapter and a fetcher.\<close>

definition download_images_with ::
  "adapter \<Rightarrow> fetcher \<Rightarrow> env \<Rightarrow> string list \<Rightarrow> string \<Rightarrow> int \<Rightarrow> string \<Rightarrow> int \<Rightarrow> int \<Rightarrow> int
     \<Rightarrow> (py_exception option \<times> counters \<times> world) option" where
  "download_images_with adapt fetch e search_terms save_name num_images save_folder
       threads batch_size pause_time =
     (let folder = path_join save_folder (replace CHR '' '' CHR ''_'' save_name)
      in if makedirs_fails e folder then Some (Some OSError, initial_counters, initial_world)
         else download_loop adapt fetch (set_iteration e) search_terms folder save_name
                num_images threads batch_size pause_time initial_counters initial_world)"

text \<open>
  \<^verbatim>\<open>download_images\<close> itself: the adapter and the fetcher are the functions of the
  module, called with their default retry bounds of 3.
\<close>

definition download_images ::
  "env \<Rightarrow> string list \<Rightarrow> string \<Rightarrow> int \<Rightarrow> string \<Rightarrow> int \<Rightarrow> int \<Rightarrow> int
     \<Rightarrow> (py_exception option \<times> counters \<times> world) option" where
  "download_images e =
     download_images_with
       (\<lambda>keyword total_needed. fetch_image_urls e keyword total_needed 3)
       (\<lambda>url folder person_name. download_image e url folder person_name 3) e"

section \<open>What the adapter is to return\<close>


fun fresh_urls :: "string list \<Rightarrow> result list \<Rightarrow> string list" where
  "fresh_urls seen [] = []"
| "fresh_urls seen (r # rs) =
     (case r ''image'' of
        None \<Rightarrow> fresh_urls seen rs
      | Some url \<Rightarrow>
          if url \<noteq> [] \<and> url \<notin> set seen then url # fresh_urls (seen @ [url]) rs
          else fresh_urls seen rs)"

text \<open>
  What one pass over a reply gathers: the first \<open>total_needed\<close> new URLs when one
  URL at least is needed; and what is new in the first result when none is, since the
  test of line 72 comes after the first result was looked at.
\<close>

definition gathered :: "int \<Rightarrow> string list \<Rightarrow> result list \<Rightarrow> string list" where
  "gathered total_needed seen rs =
     (if 0 < total_needed then take (nat total_needed) (fresh_urls seen rs)
      else fresh_urls seen (take 1 rs))"

fun reply_items :: "ddgs_reply \<Rightarrow> result list" where
  "reply_items (Results rs) = rs"
| "reply_items (Interrupted rs) = rs"

section \<open>Notions for the properties of the fetcher\<close>

text \<open>
  The payload of the response to request number \<open>n\<close>, when that response is accepted
  in line 41 and its body can be read in line 42.
\<close>

definition accepted_payload :: "env \<Rightarrow> nat \<Rightarrow> string \<Rightarrow> string option" where
  "accepted_payload e n url =
     (case session_get e n url of
        Inl exn \<Rightarrow> None
      | Inr resp \<Rightarrow>
          if status_code resp = 200 \<and>
             prefix ''image'' (dict_get (headers resp) ''content-type'' [])
          then (case content resp of Inl exn \<Rightarrow> None | Inr img_bytes \<Rightarrow> Some img_bytes)
          else None)"

text \<open>
  The deduplication invariant: no two files written in this run have the same digest,
  and the digest of every file written is in \<open>seen_hashes\<close>.
\<close>

definition dedup_inv :: "env \<Rightarrow> world \<Rightarrow> bool" where
  "dedup_inv e w =
     (distinct (map (\<lambda>f. md5_hexdigest e (snd f)) (written w)) \<and>
      (\<forall>f \<in> set (written w). md5_hexdigest e (snd f) \<in> set (seen_hashes w)))"

section \<open>Example environments\<close>

text \<open>
  A parser for the URLs of the examples below. On a URL of the form
  \<^verbatim>\<open>http://host/path\<close> without query, fragment or parameters it gives the host
  and the path that \<^verbatim>\<open>urlparse\<close> gives.
\<close>

definition simple_urlparse :: "string \<Rightarrow> py_exception + parse_result" where
  "simple_urlparse url =
     (if prefix ''http://'' url
      then Inr \<lparr>netloc = takeWhile (\<lambda>x. x \<noteq> CHR ''/'') (drop 7 url),
                path = dropWhile (\<lambda>x. x \<noteq> CHR ''/'') (drop 7 url)\<rparr>
      else Inl ValueError)"

text \<open>A few entries of the table of \<^verbatim>\<open>mimetypes.guess_extension\<close>.\<close>

definition guess_extension_table :: "string \<Rightarrow> string option" where
  "guess_extension_table t =
     (if t = ''image/webp'' then Some ''.webp''
      else if t = ''image/png'' then Some ''.png''
      else if t = ''image/jpeg'' then Some ''.jpg''
      else None)"

text \<open>A response with status 200, the given content type and the given body.\<close>

definition image_response :: "string \<Rightarrow> string \<Rightarrow> response" where
  "image_response ctype body =
     \<lparr>status_code = 200, headers = [''content-type'' \<mapsto> ctype], content = Inr body\<rparr>"

text \<open>
  An environment in which every request and every search fails at once. The digest
  of a payload is the payload itself, so that distinct payloads have distinct digests.
\<close>

definition quiet_env :: env where
  "quiet_env =
     \<lparr>urlparse = simple_urlparse, md5_hexdigest = (\<lambda>b. b),
      guess_extension = guess_extension_table,
      session_get = (\<lambda>n u. Inl RequestException),
      write_fails = (\<lambda>n p. False), ddgs_images = (\<lambda>n k m. Interrupted []),
      set_iteration = (\<lambda>xs. xs), makedirs_fails = (\<lambda>p. False)\<rparr>"



text \<open>
  An environment whose servers answer every request with a JPEG image, the body
  depending on the number of the request and on the URL; and the same with a disk on
  which every write fails.
\<close>

definition serving_env :: "(nat \<Rightarrow> string \<Rightarrow> string) \<Rightarrow> env" where
  "serving_env body =
     quiet_env\<lparr>session_get := (\<lambda>n url. Inr (image_response ''image/jpeg'' (body n url)))\<rparr>"

definition full_disk_env :: "(nat \<Rightarrow> string \<Rightarrow> string) \<Rightarrow> env" where
  "full_disk_env body = (serving_env body)\<lparr>write_fails := (\<lambda>n p. True)\<rparr>"

text \<open>
  \<open>n\<close> distinct entries of a set, in the order of their insertion: entry number
  \<open>i\<close> is the letter u written \<open>i\<close> times.
\<close>

definition entries :: "nat \<Rightarrow> string list" where
  "entries n = map (\<lambda>i. replicate i CHR ''u'') [0..<n]"

section \<open>Properties of the extension inference\<close>

lemma rfind_append_absent:
  assumes "c \<notin> set x"
  shows "rfind c (stem @ c # x) = int (length stem)"
proof -
  have "takeWhile (\<lambda>y. y \<noteq> c) (rev x @ c # rev stem) = rev x"
    using assms by (simp add: takeWhile_append)
  then show ?thesis by (simp add: rfind_def)
qed



lemma splitext_dot:
  assumes "CHR ''.'' \<notin> set x" and "CHR ''/'' \<notin> set x"
    and "list_ex (\<lambda>c. c \<noteq> CHR ''.'') (takeWhile (\<lambda>c. c \<noteq> CHR ''/'') (rev stem))"
  shows "splitext (stem @ ''.'' @ x) = (stem, ''.'' @ x)"
proof -
  let ?p = "stem @ CHR ''.'' # x"
  let ?tw = "takeWhile (\<lambda>c. c \<noteq> CHR ''/'') (rev stem)"
  let ?k = "length ?tw"
  have dot: "rfind CHR ''.'' ?p = int (length stem)"
    using assms(1) by (rule rfind_append_absent)
  have kle: "?k \<le> length stem"
    by (metis length_rev length_takeWhile_le)
  have tw: "takeWhile (\<lambda>c. c \<noteq> CHR ''/'') (rev ?p) = rev x @ CHR ''.'' # ?tw"
    using assms(2) by (simp add: takeWhile_append)
  have sep: "rfind CHR ''/'' ?p = int (length stem) - 1 - int ?k"
  proof (cases "CHR ''/'' \<in> set stem")
    case True
    then show ?thesis using tw by (simp add: rfind_def)
  next
    case False
    then have "?tw = rev stem" by (auto simp add: takeWhile_eq_all_conv)
    then have "?k = length stem" by (metis length_rev)
    then show ?thesis using False assms(2) by (simp add: rfind_def)
  qed
  have seg: "take ?k (drop (length stem - ?k) ?p) = rev ?tw"
  proof -
    have "drop (length stem - ?k) stem = rev (take ?k (rev stem))"
      by (simp add: rev_take)
    moreover have "take ?k (rev stem) = ?tw"
      by (metis takeWhile_eq_take)
    moreover have "length (drop (length stem - ?k) stem) = ?k" using kle by simp
    ultimately show ?thesis using kle by simp
  qed
  have A: "nat (rfind CHR ''.'' ?p - (rfind CHR ''/'' ?p + 1)) = ?k" using dot sep by simp
  have B: "nat (rfind CHR ''/'' ?p + 1) = length stem - ?k" using sep kle by simp
  have C: "rfind CHR ''/'' ?p < rfind CHR ''.'' ?p" using dot sep by simp
  have D: "nat (rfind CHR ''.'' ?p) = length stem" using dot by simp
  have ex: "list_ex (\<lambda>c. c \<noteq> CHR ''.'') (rev ?tw)"
    using assms(3) by (simp add: list_ex_iff)
  have "splitext ?p = (take (length stem) ?p, drop (length stem) ?p)"
    unfolding splitext_def Let_def A B D seg using C ex by (simp only: if_True simp_thms)
  then show ?thesis by simp
qed




section \<open>Properties of the entry operation\<close>

text \<open>
  Claim C10. With an empty list of search terms and a positive target, selecting the
  keyword in line 96 divides by zero: \<open>download_images\<close> raises
  \<^verbatim>\<open>ZeroDivisionError\<close>, and it does so in the initial state, in which no search
  and no request has been issued and no file written. The output folder has been
  created before, so the theorem is about a run in which creating it succeeds.
\<close>

theorem download_images_empty_terms:
  assumes "0 < num_images"
    and "\<not> makedirs_fails e (path_join save_folder (replace CHR '' '' CHR ''_'' save_name))"
  shows "download_images e [] save_name num_images save_folder threads batch_size pause_time =
           Some (Some ZeroDivisionError, initial_counters, initial_world)"
  using assms
  by (simp add: download_images_def download_images_with_def download_loop.simps
      download_round_def initial_counters_def)

theorem download_images_empty_terms_witness:
  "(0::int) < 1000 \<and>
   \<not> makedirs_fails quiet_env (path_join ''images'' (replace CHR '' '' CHR ''_'' ''Ada Lovelace'')) \<and>
   download_images quiet_env [] ''Ada Lovelace'' 1000 ''images'' 10 300 60 =
     Some (Some ZeroDivisionError, initial_counters, initial_world) \<and>
   searches initial_world = [] \<and> requests initial_world = [] \<and> written initial_world = []"
  using download_images_empty_terms [of 1000 quiet_env "''images''" "''Ada Lovelace''" 10 300 60]
  by (simp add: quiet_env_def initial_world_def)

section \<open>Properties of the search provider adapter\<close>




lemma fresh_urls_nonempty: "[] \<notin> set (fresh_urls seen rs)"
  by (induction rs arbitrary: seen) (auto split: option.splits)







lemma gather_pos:
  assumes "int (length urls) < tn"
  shows "gather tn rs urls seen =
           (nat tn - length urls \<le> length (fresh_urls seen rs),
            urls @ take (nat tn - length urls) (fresh_urls seen rs),
            seen @ take (nat tn - length urls) (fresh_urls seen rs))"
  using assms
proof (induction rs arbitrary: urls seen)
  case Nil
  then show ?case by simp
next
  case (Cons r rs)
  show ?case
  proof (cases "\<exists>url. r ''image'' = Some url \<and> url \<noteq> [] \<and> url \<notin> set seen")
    case False
    then have tr: "take_result r (urls, seen) = (urls, seen)"
      by (auto simp: take_result_def split: option.splits)
    have fr: "fresh_urls seen (r # rs) = fresh_urls seen rs"
      using False by (auto split: option.splits)
    show ?thesis using Cons tr fr by simp
  next
    case True
    then obtain url where u: "r ''image'' = Some url" "url \<noteq> []" "url \<notin> set seen" by blast
    then have tr: "take_result r (urls, seen) = (urls @ [url], seen @ [url])"
      by (simp add: take_result_def set_add_def)
    have fr: "fresh_urls seen (r # rs) = url # fresh_urls (seen @ [url]) rs"
      using u by simp
    show ?thesis
    proof (cases "int (length (urls @ [url])) \<ge> tn")
      case True
      with Cons.prems have "nat tn - length urls = 1" by simp
      then show ?thesis using tr fr True by simp
    next
      case False
      then have lt: "int (length (urls @ [url])) < tn" by simp
      have d: "nat tn - length urls = Suc (nat tn - length (urls @ [url]))"
        using lt by simp
      show ?thesis using Cons.IH[OF lt, of "seen @ [url]"] tr fr False
        by (simp add: d)
    qed
  qed
qed

lemma gather_nonpos:
  assumes "tn \<le> 0"
  shows "gather tn rs [] seen =
           (rs \<noteq> [], fresh_urls seen (take 1 rs), seen @ fresh_urls seen (take 1 rs))"
proof (cases rs)
  case Nil
  then show ?thesis by simp
next
  case (Cons r rs')
  show ?thesis
  proof (cases "\<exists>url. r ''image'' = Some url \<and> url \<noteq> [] \<and> url \<notin> set seen")
    case False
    then have "take_result r ([], seen) = ([], seen)"
      by (auto simp: take_result_def split: option.splits)
    moreover have "fresh_urls seen [r] = []"
      using False by (auto split: option.splits)
    ultimately show ?thesis using Cons assms by simp
  next
    case True
    then obtain url where u: "r ''image'' = Some url" "url \<noteq> []" "url \<notin> set seen" by blast
    then have "take_result r ([], seen) = ([url], seen @ [url])"
      by (simp add: take_result_def set_add_def)
    moreover have "fresh_urls seen [r] = [url]" using u by simp
    ultimately show ?thesis using Cons assms by simp
  qed
qed

lemma gather_gathered:
  "\<exists>stopped. gather tn rs [] seen = (stopped, gathered tn seen rs, seen @ gathered tn seen rs)"
proof (cases "0 < tn")
  case True
  then show ?thesis using gather_pos[of "[]" tn rs seen] by (simp add: gathered_def)
next
  case False
  then show ?thesis using gather_nonpos[of tn rs seen] by (simp add: gathered_def)
qed


lemma search_attempt_spec:
  assumes "search_attempt e kw tn w = (res, w')"
  shows "seen_urls w' = seen_urls w @
           gathered tn (seen_urls w) (reply_items (ddgs_images e (length (searches w)) kw (tn * 5)))"
    and "searches w' = searches w @ [(kw, tn * 5)]"
    and "res = None \<or> res = Some
           (gathered tn (seen_urls w) (reply_items (ddgs_images e (length (searches w)) kw (tn * 5))))"
    and "seen_hashes w' = seen_hashes w" and "bad_domains w' = bad_domains w"
    and "written w' = written w" and "requests w' = requests w"
proof -
  let ?rs = "reply_items (ddgs_images e (length (searches w)) kw (tn * 5))"
  obtain stopped where g: "gather tn ?rs [] (seen_urls w) =
      (stopped, gathered tn (seen_urls w) ?rs, seen_urls w @ gathered tn (seen_urls w) ?rs)"
    using gather_gathered by blast
  have all: "seen_urls w' = seen_urls w @ gathered tn (seen_urls w) ?rs \<and>
      searches w' = searches w @ [(kw, tn * 5)] \<and>
      (res = None \<or> res = Some (gathered tn (seen_urls w) ?rs)) \<and>
      seen_hashes w' = seen_hashes w \<and> bad_domains w' = bad_domains w \<and>
      written w' = written w \<and> requests w' = requests w"
  proof (cases "ddgs_images e (length (searches w)) kw (tn * 5)")
    case (Results rs)
    then show ?thesis using assms g
      by (auto simp: search_attempt_def Let_def)
  next
    case (Interrupted rs)
    then show ?thesis using assms g
      by (auto simp: search_attempt_def Let_def split: if_splits)
  qed
  from all show "seen_urls w' = seen_urls w @ gathered tn (seen_urls w) ?rs" by simp
  from all show "searches w' = searches w @ [(kw, tn * 5)]" by simp
  from all show "res = None \<or> res = Some (gathered tn (seen_urls w) ?rs)" by simp
  from all show "seen_hashes w' = seen_hashes w" by simp
  from all show "bad_domains w' = bad_domains w" by simp
  from all show "written w' = written w" by simp
  from all show "requests w' = requests w" by simp
qed









section \<open>Properties of the content fetcher\<close>

lemma download_attempt_rejected:
  assumes "accepted_payload e (length (requests w)) url = None"
  shows "download_attempt e url folder person_name w = (None, w\<lparr>requests := requests w @ [url]\<rparr>)"
  using assms
  by (auto simp: download_attempt_def accepted_payload_def Let_def
      split: sum.splits if_splits)

lemma download_attempt_duplicate:
  assumes "accepted_payload e (length (requests w)) url = Some b"
    and "md5_hexdigest e b \<in> set (seen_hashes w)"
  shows "download_attempt e url folder person_name w =
           (Some None, w\<lparr>requests := requests w @ [url]\<rparr>)"
  using assms
  by (auto simp: download_attempt_def accepted_payload_def Let_def
      split: sum.splits if_splits)

lemma download_attempt_fresh:
  assumes "accepted_payload e (length (requests w)) url = Some b"
    and "md5_hexdigest e b \<notin> set (seen_hashes w)"
  shows "(\<exists>p. download_attempt e url folder person_name w =
            (Some (Some p), w\<lparr>requests := requests w @ [url],
                              seen_hashes := seen_hashes w @ [md5_hexdigest e b],
                              written := written w @ [(p, b)]\<rparr>)) \<or>
         download_attempt e url folder person_name w =
            (None, w\<lparr>requests := requests w @ [url],
                     seen_hashes := seen_hashes w @ [md5_hexdigest e b]\<rparr>)"
  using assms
  by (auto simp: download_attempt_def accepted_payload_def Let_def set_add_def
      split: sum.splits if_splits)

lemma download_attempt_fields:
  assumes "download_attempt e url folder person_name w = (r, w')"
  shows "requests w' = requests w @ [url]" and "seen_urls w' = seen_urls w"
    and "searches w' = searches w" and "bad_domains w' = bad_domains w"
    and "prefix (seen_hashes w) (seen_hashes w')" and "prefix (written w) (written w')"
proof -
  have "requests w' = requests w @ [url] \<and> seen_urls w' = seen_urls w \<and>
    searches w' = searches w \<and> bad_domains w' = bad_domains w \<and>
    prefix (seen_hashes w) (seen_hashes w') \<and> prefix (written w) (written w')"
  proof (cases "accepted_payload e (length (requests w)) url")
    case None
    then show ?thesis using download_attempt_rejected[OF None, of folder person_name] assms by auto
  next
    case (Some b)
    show ?thesis
    proof (cases "md5_hexdigest e b \<in> set (seen_hashes w)")
      case True
      then show ?thesis using download_attempt_duplicate[OF Some True, of folder person_name] assms
        by auto
    next
      case False
      then show ?thesis using download_attempt_fresh[OF Some False, of folder person_name] assms
        by auto
    qed
  qed
  then show "requests w' = requests w @ [url]" and "seen_urls w' = seen_urls w"
    and "searches w' = searches w" and "bad_domains w' = bad_domains w"
    and "prefix (seen_hashes w) (seen_hashes w')" and "prefix (written w) (written w')"
    by simp_all
qed



lemma download_attempt_not_saved:
  assumes "download_attempt e url folder person_name w = (r, w')"
    and "\<forall>p. r \<noteq> Some (Some p)"
  shows "written w' = written w"
proof (cases "accepted_payload e (length (requests w)) url")
  case None
  then show ?thesis using download_attempt_rejected[OF None, of folder person_name] assms by auto
next
  case (Some b)
  show ?thesis
  proof (cases "md5_hexdigest e b \<in> set (seen_hashes w)")
    case True
    then show ?thesis using download_attempt_duplicate[OF Some True, of folder person_name] assms
      by auto
  next
    case False
    then show ?thesis using download_attempt_fresh[OF Some False, of folder person_name] assms
      by auto
  qed
qed


lemma retry_loop_fields:
  assumes "retry_loop e url folder person_name k w = (r, w')"
  shows "seen_urls w' = seen_urls w \<and> searches w' = searches w \<and>
         bad_domains w' = bad_domains w \<and>
         prefix (seen_hashes w) (seen_hashes w') \<and> prefix (written w) (written w') \<and>
         (\<exists>j\<le>k. requests w' = requests w @ replicate j url \<and> (r = None \<longrightarrow> j = k))"
  using assms
proof (induction k arbitrary: w)
  case 0
  then show ?case by simp
next
  case (Suc k)
  obtain r1 w1 where a: "download_attempt e url folder person_name w = (r1, w1)" by force
  note f = download_attempt_fields[OF a]
  show ?case
  proof (cases r1)
    case (Some v)
    then have eq: "r = Some v" "w' = w1" using Suc.prems a by auto
    have "requests w' = requests w @ replicate 1 url \<and> (r = None \<longrightarrow> 1 = Suc k)"
      using f(1) eq by simp
    then have "\<exists>j\<le>Suc k. requests w' = requests w @ replicate j url \<and> (r = None \<longrightarrow> j = Suc k)"
      by (metis One_nat_def Suc_le_mono le0)
    then show ?thesis using f eq by simp
  next
    case None
    then have rec: "retry_loop e url folder person_name k w1 = (r, w')"
      using Suc.prems a by simp
    note ih = Suc.IH[OF rec]
    from ih obtain j where j: "j \<le> k" "requests w' = requests w1 @ replicate j url"
      "r = None \<longrightarrow> j = k" by blast
    have "requests w' = requests w @ replicate (Suc j) url"
      using j(2) f(1) by (simp add: replicate_app_Cons_same)
    then have "\<exists>j\<le>Suc k. requests w' = requests w @ replicate j url \<and> (r = None \<longrightarrow> j = Suc k)"
      using j(1) j(3) by (metis Suc_le_mono)
    moreover have "prefix (seen_hashes w) (seen_hashes w')"
      using f(5) ih prefix_order.order_trans by blast
    moreover have "prefix (written w) (written w')"
      using f(6) ih prefix_order.order_trans by blast
    ultimately show ?thesis using f ih by simp
  qed
qed



lemma retry_loop_not_saved:
  assumes "retry_loop e url folder person_name k w = (r, w')"
    and "\<forall>p. r \<noteq> Some (Some p)"
  shows "written w' = written w"
  using assms
proof (induction k arbitrary: w)
  case 0
  then show ?case by simp
next
  case (Suc k)
  obtain r1 w1 where a: "download_attempt e url folder person_name w = (r1, w1)" by force
  show ?case
  proof (cases r1)
    case (Some v)
    then have eq: "r = Some v" "w' = w1" using Suc.prems a by auto
    then have "\<forall>p. r1 \<noteq> Some (Some p)" using Suc.prems(2) Some by simp
    then show ?thesis using download_attempt_not_saved[OF a] eq by simp
  next
    case None
    then have rec: "retry_loop e url folder person_name k w1 = (r, w')"
      using Suc.prems a by simp
    have "written w1 = written w" using download_attempt_not_saved[OF a] None by simp
    then show ?thesis using Suc.IH[OF rec Suc.prems(2)] by simp
  qed
qed

lemma retry_loop_known_digests:
  assumes "retry_loop e url folder person_name k w = (r, w')"
    and "\<forall>n b. length (requests w) \<le> n \<and> accepted_payload e n url = Some b \<longrightarrow>
           md5_hexdigest e b \<in> set (seen_hashes w)"
  shows "(r = None \<or> r = Some None) \<and> seen_hashes w' = seen_hashes w \<and> written w' = written w"
  using assms
proof (induction k arbitrary: w)
  case 0
  then show ?case by simp
next
  case (Suc k)
  show ?case
  proof (cases "accepted_payload e (length (requests w)) url")
    case None
    note a = download_attempt_rejected[OF None, of folder person_name]
    then have rec: "retry_loop e url folder person_name k (w\<lparr>requests := requests w @ [url]\<rparr>) =
        (r, w')" using Suc.prems(1) by simp
    have "\<forall>n b. length (requests (w\<lparr>requests := requests w @ [url]\<rparr>)) \<le> n \<and>
        accepted_payload e n url = Some b \<longrightarrow>
        md5_hexdigest e b \<in> set (seen_hashes (w\<lparr>requests := requests w @ [url]\<rparr>))"
      using Suc.prems(2) by (auto dest: Suc_leD)
    from Suc.IH[OF rec this] show ?thesis by simp
  next
    case (Some b)
    then have "md5_hexdigest e b \<in> set (seen_hashes w)" using Suc.prems(2) by blast
    from download_attempt_duplicate[OF Some this, of folder person_name]
    show ?thesis using Suc.prems(1) by auto
  qed
qed

lemma download_image_cases:
  assumes "download_image e url folder person_name k w = (r, w')"
  shows "(\<exists>exn. urlparse e url = Inl exn \<and> r = Inl exn \<and> w' = w) \<or>
         (\<exists>parsed. urlparse e url = Inr parsed \<and> netloc parsed \<in> bad_domains w \<and>
            r = Inr None \<and> w' = w) \<or>
         (\<exists>parsed v. urlparse e url = Inr parsed \<and> netloc parsed \<notin> bad_domains w \<and>
            retry_loop e url folder person_name (nat k) w = (Some v, w') \<and> r = Inr v) \<or>
         (\<exists>parsed w1. urlparse e url = Inr parsed \<and> netloc parsed \<notin> bad_domains w \<and>
            retry_loop e url folder person_name (nat k) w = (None, w1) \<and> r = Inr None \<and>
            w' = w1\<lparr>bad_domains := insert (netloc parsed) (bad_domains w1)\<rparr>)"
  using assms
  by (auto simp: download_image_def split: sum.splits if_splits prod.splits option.splits)

lemma download_image_fields:
  assumes "download_image e url folder person_name k w = (r, w')"
  shows "seen_urls w' = seen_urls w" and "searches w' = searches w"
    and "bad_domains w \<subseteq> bad_domains w'"
    and "prefix (seen_hashes w) (seen_hashes w')" and "prefix (written w) (written w')"
    and "prefix (requests w) (requests w')"
proof -
  have "seen_urls w' = seen_urls w \<and> searches w' = searches w \<and>
    bad_domains w \<subseteq> bad_domains w' \<and>
    prefix (seen_hashes w) (seen_hashes w') \<and> prefix (written w) (written w') \<and>
    prefix (requests w) (requests w')"
    using download_image_cases[OF assms]
  proof (elim disjE exE conjE)
    fix parsed v
    assume "retry_loop e url folder person_name (nat k) w = (Some v, w')"
    from retry_loop_fields[OF this] show ?thesis by auto
  next
    fix parsed w1
    assume l: "retry_loop e url folder person_name (nat k) w = (None, w1)"
      and w': "w' = w1\<lparr>bad_domains := insert (netloc parsed) (bad_domains w1)\<rparr>"
    from retry_loop_fields[OF l] show ?thesis using w' by auto
  qed simp_all
  then show "seen_urls w' = seen_urls w" and "searches w' = searches w"
    and "bad_domains w \<subseteq> bad_domains w'"
    and "prefix (seen_hashes w) (seen_hashes w')" and "prefix (written w) (written w')"
    and "prefix (requests w) (requests w')" by simp_all
qed

lemma dedup_inv_bad_domains [simp]:
  "dedup_inv e (w\<lparr>bad_domains := d\<rparr>) = dedup_inv e w"
  by (simp add: dedup_inv_def)



lemma download_image_known_digests:
  assumes "download_image e url folder person_name k w = (r, w')"
    and "\<forall>n b. length (requests w) \<le> n \<and> accepted_payload e n url = Some b \<longrightarrow>
           md5_hexdigest e b \<in> set (seen_hashes w)"
  shows "(r = Inr None \<or> (\<exists>exn. urlparse e url = Inl exn \<and> r = Inl exn)) \<and>
         seen_hashes w' = seen_hashes w \<and> written w' = written w"
  using download_image_cases[OF assms(1)]
proof (elim disjE exE conjE)
  fix parsed v
  assume l: "retry_loop e url folder person_name (nat k) w = (Some v, w')" and r: "r = Inr v"
  from retry_loop_known_digests[OF l assms(2)] show ?thesis using r by simp
next
  fix parsed w1
  assume l: "retry_loop e url folder person_name (nat k) w = (None, w1)"
    and w': "w' = w1\<lparr>bad_domains := insert (netloc parsed) (bad_domains w1)\<rparr>"
    and r: "r = Inr None"
  from retry_loop_known_digests[OF l assms(2)] show ?thesis using r w' by simp
qed simp_all


lemma dispatch_fields:
  assumes "dispatch (\<lambda>url folder person_name. download_image e url folder person_name k)
             urls folder save_name w = (rs, w')"
  shows "seen_urls w' = seen_urls w \<and> searches w' = searches w \<and>
         bad_domains w \<subseteq> bad_domains w' \<and>
         prefix (seen_hashes w) (seen_hashes w') \<and> prefix (written w) (written w') \<and>
         prefix (requests w) (requests w') \<and> length rs = length urls"
  using assms
proof (induction urls arbitrary: w rs w')
  case Nil
  then show ?case by auto
next
  case (Cons url urls)
  obtain r w1 where a: "download_image e url folder save_name k w = (r, w1)" by force
  obtain rs1 w2 where b: "dispatch (\<lambda>url folder person_name.
      download_image e url folder person_name k) urls folder save_name w1 = (rs1, w2)" by force
  have eq: "w' = w2" "rs = r # rs1" using Cons.prems(1) a b by auto
  note f = download_image_fields[OF a]
  note ih = Cons.IH[OF b]
  have "prefix (seen_hashes w) (seen_hashes w')"
    using f(4) ih eq prefix_order.order_trans by blast
  moreover have "prefix (written w) (written w')"
    using f(5) ih eq prefix_order.order_trans by blast
  moreover have "prefix (requests w) (requests w')"
    using f(6) ih eq prefix_order.order_trans by blast
  moreover have "bad_domains w \<subseteq> bad_domains w'" using f(3) ih eq by blast
  ultimately show ?case using f(1) f(2) ih eq by simp
qed


lemmas fetcher_eval =
  download_image_def download_attempt_def get_extension_from_url_or_content_def
  serving_env_def full_disk_env_def quiet_env_def simple_urlparse_def image_response_def
  guess_extension_table_def splitext_def rfind_def path_join_def replace_def lstrip_def
  split_first_def dict_get_def set_add_def initial_world_def Let_def numeral_3_eq_3
  suffix_to_prefix



lemma download_attempt_write_fails:
  assumes "accepted_payload e (length (requests w)) url = Some b"
    and "md5_hexdigest e b \<notin> set (seen_hashes w)"
    and "\<forall>p. write_fails e (length (requests w)) p"
  shows "download_attempt e url folder person_name w =
           (None, w\<lparr>requests := requests w @ [url],
                    seen_hashes := seen_hashes w @ [md5_hexdigest e b]\<rparr>)"
  using assms
  by (auto simp: download_attempt_def accepted_payload_def Let_def set_add_def
      split: sum.splits if_splits)

text \<open>
  Claim C9. The digest is put into \<open>seen_hashes\<close> in line 48, before the file is
  written in lines 52 and 53. When the first attempt of a call is served a new payload
  and the write fails, the digest stays in \<open>seen_hashes\<close>. If the second attempt is
  served a payload of the same digest, the call returns \<^verbatim>\<open>None\<close> as for a
  duplicate: nothing was written, \<open>seen_hashes\<close> holds a digest that no file has, and
  no later call that is served this digest writes it. If the second attempt is served a
  payload of another new digest and the write fails again, the call has put two digests
  into \<open>seen_hashes\<close>.
\<close>

theorem download_image_not_atomic:
  assumes "urlparse e url = Inr parsed" and "netloc parsed \<notin> bad_domains w"
    and "accepted_payload e (length (requests w)) url = Some b"
    and "md5_hexdigest e b \<notin> set (seen_hashes w)"
    and "\<forall>p. write_fails e (length (requests w)) p"
    and "accepted_payload e (Suc (length (requests w))) url = Some b2"
    and "2 \<le> max_retries"
    and "dedup_inv e w"
  shows
    "(md5_hexdigest e b2 = md5_hexdigest e b \<longrightarrow>
        download_image e url folder person_name max_retries w =
          (Inr None, w\<lparr>requests := requests w @ [url, url],
                        seen_hashes := seen_hashes w @ [md5_hexdigest e b]\<rparr>) \<and>
        md5_hexdigest e b \<notin> (\<lambda>f. md5_hexdigest e (snd f)) ` set (written w) \<and>
        (\<forall>url2 folder2 name2 k2.
           (\<forall>n c. length (requests w) + 2 \<le> n \<and> accepted_payload e n url2 = Some c \<longrightarrow>
              md5_hexdigest e c = md5_hexdigest e b) \<longrightarrow>
           written (snd (download_image e url2 folder2 name2 k2
              (w\<lparr>requests := requests w @ [url, url],
                  seen_hashes := seen_hashes w @ [md5_hexdigest e b]\<rparr>))) = written w)) \<and>
     (md5_hexdigest e b2 \<noteq> md5_hexdigest e b \<and> md5_hexdigest e b2 \<notin> set (seen_hashes w) \<and>
      (\<forall>p. write_fails e (Suc (length (requests w))) p) \<longrightarrow>
        prefix (seen_hashes w @ [md5_hexdigest e b, md5_hexdigest e b2])
          (seen_hashes (snd (download_image e url folder person_name max_retries w))))"
proof -
  let ?h = "md5_hexdigest e b"
  let ?w1 = "w\<lparr>requests := requests w @ [url], seen_hashes := seen_hashes w @ [?h]\<rparr>"
  let ?W = "w\<lparr>requests := requests w @ [url, url], seen_hashes := seen_hashes w @ [?h]\<rparr>"
  define j where "j = nat max_retries - 2"
  have k: "nat max_retries = Suc (Suc j)" using assms(7) by (simp add: j_def)
  have a1: "download_attempt e url folder person_name w = (None, ?w1)"
    using download_attempt_write_fails[OF assms(3) assms(4) assms(5)] .
  have acc2: "accepted_payload e (length (requests ?w1)) url = Some b2"
    using assms(6) by simp
  have same: "download_image e url folder person_name max_retries w = (Inr None, ?W) \<and>
        ?h \<notin> (\<lambda>f. md5_hexdigest e (snd f)) ` set (written w) \<and>
        (\<forall>url2 folder2 name2 k2.
           (\<forall>n c. length (requests w) + 2 \<le> n \<and> accepted_payload e n url2 = Some c \<longrightarrow>
              md5_hexdigest e c = ?h) \<longrightarrow>
           written (snd (download_image e url2 folder2 name2 k2 ?W)) = written w)"
    if eq: "md5_hexdigest e b2 = ?h"
  proof -
    have "md5_hexdigest e b2 \<in> set (seen_hashes ?w1)" using eq by simp
    from download_attempt_duplicate[OF acc2 this, of folder person_name]
    have a2: "download_attempt e url folder person_name ?w1 = (Some None, ?W)" by simp
    have "retry_loop e url folder person_name (nat max_retries) w = (Some None, ?W)"
      using k a1 a2 by simp
    then have A: "download_image e url folder person_name max_retries w = (Inr None, ?W)"
      using assms(1) assms(2) by (simp add: download_image_def)
    have B: "?h \<notin> (\<lambda>f. md5_hexdigest e (snd f)) ` set (written w)"
      using assms(4) assms(8) by (auto simp: dedup_inv_def)
    have C: "written (snd (download_image e url2 folder2 name2 k2 ?W)) = written w"
      if later: "\<forall>n c. length (requests w) + 2 \<le> n \<and> accepted_payload e n url2 = Some c \<longrightarrow>
              md5_hexdigest e c = ?h" for url2 folder2 name2 k2
    proof -
      obtain r2 w2 where c2: "download_image e url2 folder2 name2 k2 ?W = (r2, w2)" by force
      have "\<forall>n c. length (requests ?W) \<le> n \<and> accepted_payload e n url2 = Some c \<longrightarrow>
              md5_hexdigest e c \<in> set (seen_hashes ?W)"
        using later by simp
      from download_image_known_digests[OF c2 this] show ?thesis using c2 by simp
    qed
    show ?thesis using A B C by blast
  qed
  have diff: "prefix (seen_hashes w @ [?h, md5_hexdigest e b2])
          (seen_hashes (snd (download_image e url folder person_name max_retries w)))"
    if ne: "md5_hexdigest e b2 \<noteq> ?h" and fresh: "md5_hexdigest e b2 \<notin> set (seen_hashes w)"
      and wf: "\<forall>p. write_fails e (Suc (length (requests w))) p"
  proof -
    let ?w2 = "?w1\<lparr>requests := requests ?w1 @ [url],
                    seen_hashes := seen_hashes ?w1 @ [md5_hexdigest e b2]\<rparr>"
    have f2: "md5_hexdigest e b2 \<notin> set (seen_hashes ?w1)" using ne fresh by simp
    have wf2: "\<forall>p. write_fails e (length (requests ?w1)) p" using wf by simp
    have a2: "download_attempt e url folder person_name ?w1 = (None, ?w2)"
      using download_attempt_write_fails[OF acc2 f2 wf2] .
    obtain r3 w3 where l: "retry_loop e url folder person_name j ?w2 = (r3, w3)" by force
    have p: "prefix (seen_hashes ?w2) (seen_hashes w3)"
      using retry_loop_fields[OF l] by blast
    have rl: "retry_loop e url folder person_name (nat max_retries) w = (r3, w3)"
      using k a1 a2 l by simp
    have "seen_hashes (snd (download_image e url folder person_name max_retries w)) =
        seen_hashes w3"
      using rl assms(1) assms(2) by (cases r3) (simp_all add: download_image_def)
    then show ?thesis using p by simp
  qed
  show ?thesis using same diff by blast
qed


theorem download_image_not_atomic_witness:
  "urlparse (full_disk_env (\<lambda>n url. ''JFIF-bytes'')) ''http://x.org/a.jpg'' =
     Inr \<lparr>netloc = ''x.org'', path = ''/a.jpg''\<rparr> \<and>
   ''x.org'' \<notin> bad_domains initial_world \<and>
   accepted_payload (full_disk_env (\<lambda>n url. ''JFIF-bytes'')) 0 ''http://x.org/a.jpg'' =
     Some ''JFIF-bytes'' \<and>
   accepted_payload (full_disk_env (\<lambda>n url. ''JFIF-bytes'')) 1 ''http://x.org/a.jpg'' =
     Some ''JFIF-bytes'' \<and>
   (\<forall>p. write_fails (full_disk_env (\<lambda>n url. ''JFIF-bytes'')) 0 p) \<and>
   dedup_inv (full_disk_env (\<lambda>n url. ''JFIF-bytes'')) initial_world \<and>
   download_image (full_disk_env (\<lambda>n url. ''JFIF-bytes'')) ''http://x.org/a.jpg''
     ''images/Ada'' ''Ada'' 3 initial_world =
     (Inr None, initial_world\<lparr>requests := [''http://x.org/a.jpg'', ''http://x.org/a.jpg''],
                  seen_hashes := [''JFIF-bytes'']\<rparr>) \<and>
   seen_hashes (snd (download_image (full_disk_env (\<lambda>n url. ''JFIF-'' @ replicate n CHR ''x''))
     ''http://x.org/a.jpg'' ''images/Ada'' ''Ada'' 3 initial_world)) =
     [''JFIF-'', ''JFIF-x'', ''JFIF-xx'']"
proof -
  let ?e = "full_disk_env (\<lambda>n url. ''JFIF-bytes'')"
  have h1: "urlparse ?e ''http://x.org/a.jpg'' = Inr \<lparr>netloc = ''x.org'', path = ''/a.jpg''\<rparr>"
    by (simp add: fetcher_eval)
  have h2: "netloc \<lparr>netloc = ''x.org'', path = ''/a.jpg''\<rparr> \<notin> bad_domains initial_world"
    by (simp add: initial_world_def)
  have h3: "accepted_payload ?e (length (requests initial_world)) ''http://x.org/a.jpg'' =
      Some ''JFIF-bytes''"
    by (simp add: accepted_payload_def fetcher_eval)
  have h4: "md5_hexdigest ?e ''JFIF-bytes'' \<notin> set (seen_hashes initial_world)"
    by (simp add: initial_world_def)
  have h5: "\<forall>p. write_fails ?e (length (requests initial_world)) p"
    by (simp add: fetcher_eval)
  have h6: "accepted_payload ?e (Suc (length (requests initial_world))) ''http://x.org/a.jpg'' =
      Some ''JFIF-bytes''"
    by (simp add: accepted_payload_def fetcher_eval)
  have h7: "(2::int) \<le> 3" by simp
  have h8: "dedup_inv ?e initial_world" by (simp add: dedup_inv_def initial_world_def)
  note th = download_image_not_atomic [OF h1 h2 h3 h4 h5 h6 h7 h8,
      of "''images/Ada''" "''Ada''"]
  have c: "download_image ?e ''http://x.org/a.jpg'' ''images/Ada'' ''Ada'' 3 initial_world =
     (Inr None, initial_world\<lparr>requests := requests initial_world @
                     [''http://x.org/a.jpg'', ''http://x.org/a.jpg''],
                  seen_hashes := seen_hashes initial_world @
                     [md5_hexdigest ?e ''JFIF-bytes'']\<rparr>)"
    using th by blast
  have c': "download_image ?e ''http://x.org/a.jpg'' ''images/Ada'' ''Ada'' 3 initial_world =
     (Inr None, initial_world\<lparr>requests := [''http://x.org/a.jpg'', ''http://x.org/a.jpg''],
                  seen_hashes := [''JFIF-bytes'']\<rparr>)"
    using c by (simp add: initial_world_def full_disk_env_def serving_env_def quiet_env_def)
  have d: "seen_hashes (snd (download_image
      (full_disk_env (\<lambda>n url. ''JFIF-'' @ replicate n CHR ''x''))
     ''http://x.org/a.jpg'' ''images/Ada'' ''Ada'' 3 initial_world)) =
     [''JFIF-'', ''JFIF-x'', ''JFIF-xx'']"
    by (simp add: fetcher_eval)
  show ?thesis
    using h1 h2 h3 h5 h6 h8 c' d by (simp add: initial_world_def)
qed

lemma search_loop_other_fields:
  assumes "search_loop e kw tn k w = (res, w')"
  shows "seen_hashes w' = seen_hashes w \<and> bad_domains w' = bad_domains w \<and>
         written w' = written w \<and> requests w' = requests w"
  using assms
proof (induction k arbitrary: w)
  case 0
  then show ?case by simp
next
  case (Suc k)
  obtain r1 w1 where a: "search_attempt e kw tn w = (r1, w1)" by force
  note sp = search_attempt_spec[OF a]
  show ?case
  proof (cases r1)
    case (Some urls)
    then have "w' = w1" using Suc.prems a by simp
    then show ?thesis using sp by simp
  next
    case None
    then have "search_loop e kw tn k w1 = (res, w')" using Suc.prems a by simp
    from Suc.IH[OF this] show ?thesis using sp by simp
  qed
qed

lemma fetch_image_urls_other_fields:
  assumes "fetch_image_urls e kw tn retries w = (urls, w')"
  shows "seen_hashes w' = seen_hashes w" and "bad_domains w' = bad_domains w"
    and "written w' = written w" and "requests w' = requests w"
proof -
  obtain res where l: "search_loop e kw tn (nat retries) w = (res, w')"
    using assms by (auto simp: fetch_image_urls_def split: prod.splits option.splits)
  from search_loop_other_fields[OF l]
  show "seen_hashes w' = seen_hashes w" and "bad_domains w' = bad_domains w"
    and "written w' = written w" and "requests w' = requests w" by simp_all
qed

lemma download_round_bad_domains:
  assumes "download_round (\<lambda>keyword total_needed. fetch_image_urls e keyword total_needed 3)
             (\<lambda>url folder person_name. download_image e url folder person_name 3)
             iteration search_terms folder save_name num_images threads batch_size pause_time
             c w = (fl, c', w')"
  shows "bad_domains w \<subseteq> bad_domains w'"
proof (cases "search_terms = []")
  case True
  then show ?thesis using assms by (simp add: download_round_def)
next
  case False
  let ?kw = "search_terms ! nat (term_index c mod int (length search_terms))"
  let ?batch = "min batch_size (num_images - downloaded_count c)"
  obtain urls w1 where f: "fetch_image_urls e ?kw ?batch 3 w = (urls, w1)" by force
  have b1: "bad_domains w1 = bad_domains w" using fetch_image_urls_other_fields(2)[OF f] .
  show ?thesis
  proof (cases "urls = [] \<or> threads \<le> 0")
    case True
    then have "w' = w1" using assms False f
      by (auto simp: download_round_def Let_def split: if_splits)
    then show ?thesis using b1 by simp
  next
    case n: False
    obtain rs w2 where d: "dispatch (\<lambda>url folder person_name.
        download_image e url folder person_name 3) urls folder save_name w1 = (rs, w2)" by force
    have "bad_domains w' = bad_domains w2" using assms False f n d
      by (auto simp: download_round_def Let_def split: if_splits)
    moreover have "bad_domains w1 \<subseteq> bad_domains w2" using dispatch_fields[OF d] by simp
    ultimately show ?thesis using b1 by simp
  qed
qed

text \<open>
  Claim C2. A call of \<open>download_image\<close> never removes a host from \<open>bad_domains\<close>, and
  no pass through the loop of \<open>download_images\<close> does. A call for a URL whose host is
  in \<open>bad_domains\<close> returns \<^verbatim>\<open>None\<close> and leaves the state as it was, so it has
  issued no request. A host that was not in \<open>bad_domains\<close> is in it after the call
  exactly when the retry loop has come to its end without a \<^verbatim>\<open>return\<close>; the call
  has then issued \<open>max_retries\<close> requests. And once the host is in \<open>bad_domains\<close>,
  every call for a URL of that host, in any later state that still holds the hosts of
  \<open>bad_domains\<close>, returns \<^verbatim>\<open>None\<close> without a request.
\<close>

theorem bad_domains_blocklist:
  assumes "download_image e url folder person_name max_retries w = (r, w')"
  shows
    "bad_domains w \<subseteq> bad_domains w' \<and>
     (\<forall>parsed. urlparse e url = Inr parsed \<and> netloc parsed \<in> bad_domains w \<longrightarrow>
        r = Inr None \<and> w' = w) \<and>
     (\<forall>parsed. urlparse e url = Inr parsed \<and> netloc parsed \<notin> bad_domains w \<longrightarrow>
        (netloc parsed \<in> bad_domains w' \<longleftrightarrow>
         fst (retry_loop e url folder person_name (nat max_retries) w) = None)) \<and>
     (bad_domains w' \<noteq> bad_domains w \<longrightarrow>
        (\<exists>parsed. urlparse e url = Inr parsed \<and>
           bad_domains w' = insert (netloc parsed) (bad_domains w) \<and> r = Inr None \<and>
           requests w' = requests w @ replicate (nat max_retries) url)) \<and>
     (\<forall>parsed url2 parsed2 folder2 name2 k2 w2.
        urlparse e url = Inr parsed \<and> netloc parsed \<in> bad_domains w' \<and>
        bad_domains w' \<subseteq> bad_domains w2 \<and>
        urlparse e url2 = Inr parsed2 \<and> netloc parsed2 = netloc parsed \<longrightarrow>
        download_image e url2 folder2 name2 k2 w2 = (Inr None, w2)) \<and>
     (\<forall>iteration search_terms folder3 save_name num_images threads batch_size pause_time
         c wa fl c' wb.
        download_round (\<lambda>keyword total_needed. fetch_image_urls e keyword total_needed 3)
          (\<lambda>url folder person_name. download_image e url folder person_name 3)
          iteration search_terms folder3 save_name num_images threads batch_size pause_time
          c wa = (fl, c', wb) \<longrightarrow>
        bad_domains wa \<subseteq> bad_domains wb)"
proof -
  note cs = download_image_cases[OF assms]
  have A: "bad_domains w \<subseteq> bad_domains w'" using download_image_fields(3)[OF assms] .
  have B: "r = Inr None \<and> w' = w"
    if "urlparse e url = Inr parsed \<and> netloc parsed \<in> bad_domains w" for parsed
    using assms that by (simp add: download_image_def)
  have C: "netloc parsed \<in> bad_domains w' \<longleftrightarrow>
         fst (retry_loop e url folder person_name (nat max_retries) w) = None"
    if p: "urlparse e url = Inr parsed \<and> netloc parsed \<notin> bad_domains w" for parsed
  proof -
    obtain r1 w1 where l: "retry_loop e url folder person_name (nat max_retries) w = (r1, w1)"
      by force
    have b: "bad_domains w1 = bad_domains w" using retry_loop_fields[OF l] by simp
    show ?thesis
    proof (cases r1)
      case None
      then have "w' = w1\<lparr>bad_domains := insert (netloc parsed) (bad_domains w1)\<rparr>"
        using assms p l by (simp add: download_image_def)
      then show ?thesis using None l by simp
    next
      case (Some v)
      then have "w' = w1" using assms p l by (simp add: download_image_def)
      then show ?thesis using Some l b p by simp
    qed
  qed
  have D: "\<exists>parsed. urlparse e url = Inr parsed \<and>
           bad_domains w' = insert (netloc parsed) (bad_domains w) \<and> r = Inr None \<and>
           requests w' = requests w @ replicate (nat max_retries) url"
    if ne: "bad_domains w' \<noteq> bad_domains w"
    using cs
  proof (elim disjE exE conjE)
    fix parsed v
    assume "retry_loop e url folder person_name (nat max_retries) w = (Some v, w')"
    from retry_loop_fields[OF this] show ?thesis using ne by simp
  next
    fix parsed w1
    assume p: "urlparse e url = Inr parsed"
      and l: "retry_loop e url folder person_name (nat max_retries) w = (None, w1)"
      and r: "r = Inr None"
      and w': "w' = w1\<lparr>bad_domains := insert (netloc parsed) (bad_domains w1)\<rparr>"
    from retry_loop_fields[OF l] have "bad_domains w1 = bad_domains w"
      and "requests w1 = requests w @ replicate (nat max_retries) url" by auto
    then show ?thesis using p r w' by simp
  qed (use ne in simp_all)
  have E: "download_image e url2 folder2 name2 k2 w2 = (Inr None, w2)"
    if "urlparse e url = Inr parsed \<and> netloc parsed \<in> bad_domains w' \<and>
        bad_domains w' \<subseteq> bad_domains w2 \<and>
        urlparse e url2 = Inr parsed2 \<and> netloc parsed2 = netloc parsed"
    for parsed url2 parsed2 folder2 name2 k2 w2
  proof -
    have "netloc parsed2 \<in> bad_domains w2" using that by auto
    then show ?thesis using that by (simp add: download_image_def)
  qed
  show ?thesis
    apply (intro conjI)
    subgoal by (rule A)
    subgoal using B by blast
    subgoal using C by blast
    subgoal using D by blast
    subgoal using E by blast
    subgoal by (intro allI impI) (rule download_round_bad_domains)
    done
qed


theorem bad_domains_blocklist_witness:
  "download_image quiet_env ''http://dead.org/a.jpg'' ''images/Ada'' ''Ada'' 3 initial_world =
     (Inr None,
      initial_world\<lparr>bad_domains := {''dead.org''},
        requests := [''http://dead.org/a.jpg'', ''http://dead.org/a.jpg'',
                     ''http://dead.org/a.jpg'']\<rparr>) \<and>
   download_image quiet_env ''http://dead.org/b.jpg'' ''images/Ada'' ''Ada'' 3
     (initial_world\<lparr>bad_domains := {''dead.org''},
        requests := [''http://dead.org/a.jpg'', ''http://dead.org/a.jpg'',
                     ''http://dead.org/a.jpg'']\<rparr>) =
     (Inr None,
      initial_world\<lparr>bad_domains := {''dead.org''},
        requests := [''http://dead.org/a.jpg'', ''http://dead.org/a.jpg'',
                     ''http://dead.org/a.jpg'']\<rparr>)"
proof -
  let ?W = "initial_world\<lparr>bad_domains := {''dead.org''},
        requests := [''http://dead.org/a.jpg'', ''http://dead.org/a.jpg'',
                     ''http://dead.org/a.jpg'']\<rparr>"
  have ev: "download_image quiet_env ''http://dead.org/a.jpg'' ''images/Ada'' ''Ada'' 3
      initial_world = (Inr None, ?W)"
    by (simp add: fetcher_eval)
  have p1: "urlparse quiet_env ''http://dead.org/a.jpg'' =
      Inr \<lparr>netloc = ''dead.org'', path = ''/a.jpg''\<rparr>"
    by (simp add: quiet_env_def simple_urlparse_def)
  have p2: "urlparse quiet_env ''http://dead.org/b.jpg'' =
      Inr \<lparr>netloc = ''dead.org'', path = ''/b.jpg''\<rparr>"
    by (simp add: quiet_env_def simple_urlparse_def)
  have m: "netloc \<lparr>netloc = ''dead.org'', path = ''/a.jpg''\<rparr> \<in> bad_domains ?W"
    by simp
  have n: "netloc \<lparr>netloc = ''dead.org'', path = ''/b.jpg''\<rparr> =
      netloc \<lparr>netloc = ''dead.org'', path = ''/a.jpg''\<rparr>" by simp
  note th = bad_domains_blocklist [OF ev, THEN conjunct2, THEN conjunct2, THEN conjunct2,
      THEN conjunct2, THEN conjunct1, rule_format,
      of "\<lparr>netloc = ''dead.org'', path = ''/a.jpg''\<rparr>" ?W "''http://dead.org/b.jpg''"
         "\<lparr>netloc = ''dead.org'', path = ''/b.jpg''\<rparr>" "''images/Ada''" "''Ada''" 3]
  have "download_image quiet_env ''http://dead.org/b.jpg'' ''images/Ada'' ''Ada'' 3 ?W =
      (Inr None, ?W)"
  proof (rule th, intro conjI)
    show "urlparse quiet_env ''http://dead.org/a.jpg'' =
      Inr \<lparr>netloc = ''dead.org'', path = ''/a.jpg''\<rparr>" by (rule p1)
    show "netloc \<lparr>netloc = ''dead.org'', path = ''/a.jpg''\<rparr> \<in> bad_domains ?W" by (rule m)
    show "bad_domains ?W \<subseteq> bad_domains ?W" by simp
    show "urlparse quiet_env ''http://dead.org/b.jpg'' =
      Inr \<lparr>netloc = ''dead.org'', path = ''/b.jpg''\<rparr>" by (rule p2)
    show "netloc \<lparr>netloc = ''dead.org'', path = ''/b.jpg''\<rparr> =
      netloc \<lparr>netloc = ''dead.org'', path = ''/a.jpg''\<rparr>" by (rule n)
  qed
  then show ?thesis using ev by simp
qed

text \<open>
  A rule for the loop of \<open>download_images\<close>: what holds before the loop and is kept
  by every pass that goes on holds when the loop is left. It speaks of the runs that
  return.
\<close>

lemma download_loop_rule:
  assumes run: "download_loop adapt fetch iteration search_terms folder save_name num_images
             threads batch_size pause_time c w = Some (x, c', w')"
    and init: "I c w"
    and step: "\<And>c w fl c1 w1. I c w \<Longrightarrow> downloaded_count c < num_images \<Longrightarrow>
        download_round adapt fetch iteration search_terms folder save_name num_images
          threads batch_size pause_time c w = (fl, c1, w1) \<Longrightarrow>
        (fl = Continue \<longrightarrow> I c1 w1) \<and> (fl = Break \<longrightarrow> Post None c1 w1) \<and>
        (\<forall>exn. fl = Raise exn \<longrightarrow> Post (Some exn) c1 w1)"
    and exit: "\<And>c w. I c w \<Longrightarrow> \<not> downloaded_count c < num_images \<Longrightarrow> Post None c w"
  shows "Post x c' w'"
proof -
  let ?P = "\<lambda>adapt' fetch' iteration' search_terms' folder' save_name' num_images'
      threads' batch_size' pause_time' c w y.
      adapt' = adapt \<and> fetch' = fetch \<and> iteration' = iteration \<and>
      search_terms' = search_terms \<and> folder' = folder \<and> save_name' = save_name \<and>
      num_images' = num_images \<and> threads' = threads \<and> batch_size' = batch_size \<and>
      pause_time' = pause_time \<and> I c w \<longrightarrow> Post (fst y) (fst (snd y)) (snd (snd y))"
  have "?P adapt fetch iteration search_terms folder save_name num_images
      threads batch_size pause_time c w (x, c', w')"
  proof (rule download_loop.raw_induct[where P = ?P, OF _ run], intro impI, elim conjE)
    fix loop adapt' fetch' iteration' search_terms' folder' save_name' num_images'
      threads' batch_size' pause_time' c w y
    assume ih: "\<And>adapt' fetch' iteration' search_terms' folder' save_name' num_images'
        threads' batch_size' pause_time' c w y.
        loop adapt' fetch' iteration' search_terms' folder' save_name' num_images'
          threads' batch_size' pause_time' c w = Some y \<Longrightarrow>
        ?P adapt' fetch' iteration' search_terms' folder' save_name' num_images'
          threads' batch_size' pause_time' c w y"
      and body: "(if downloaded_count c < num_images'
           then case download_round adapt' fetch' iteration' search_terms' folder'
                  save_name' num_images' threads' batch_size' pause_time' c w of
                (Raise exn, c', w') \<Rightarrow> Some (Some exn, c', w')
              | (Break, c', w') \<Rightarrow> Some (None, c', w')
              | (Continue, c', w') \<Rightarrow>
                  loop adapt' fetch' iteration' search_terms' folder' save_name'
                    num_images' threads' batch_size' pause_time' c' w'
           else Some (None, c, w)) = Some y"
      and eqs: "adapt' = adapt" "fetch' = fetch" "iteration' = iteration"
        "search_terms' = search_terms" "folder' = folder" "save_name' = save_name"
        "num_images' = num_images" "threads' = threads" "batch_size' = batch_size"
        "pause_time' = pause_time"
      and i: "I c w"
    show "Post (fst y) (fst (snd y)) (snd (snd y))"
    proof (cases "downloaded_count c < num_images")
      case False
      then have "y = (None, c, w)" using body eqs by simp
      then show ?thesis using exit[OF i False] by simp
    next
      case True
      obtain fl c1 w1 where r: "download_round adapt fetch iteration search_terms folder
          save_name num_images threads batch_size pause_time c w = (fl, c1, w1)"
        by (metis prod_cases3)
      note st = step[OF i True r]
      show ?thesis
      proof (cases fl)
        case (Raise exn)
        then have "y = (Some exn, c1, w1)" using body eqs True r by simp
        then show ?thesis using st Raise by simp
      next
        case Break
        then have "y = (None, c1, w1)" using body eqs True r by simp
        then show ?thesis using st Break by simp
      next
        case Continue
        then have l: "loop adapt fetch iteration search_terms folder save_name num_images
            threads batch_size pause_time c1 w1 = Some y"
          using body eqs True r by simp
        have "I c1 w1" using st Continue by simp
        then show ?thesis using ih[OF l] by simp
      qed
    qed
  qed
  then show ?thesis using init by simp
qed

lemma download_loop_bad_domains:
  assumes "download_loop (\<lambda>keyword total_needed. fetch_image_urls e keyword total_needed 3)
             (\<lambda>url folder person_name. download_image e url folder person_name 3)
             iteration search_terms folder save_name num_images threads batch_size pause_time
             c w = Some (x, c', w')"
  shows "bad_domains w \<subseteq> bad_domains w'"
proof (rule download_loop_rule[OF assms,
      where I = "\<lambda>c1 w1. bad_domains w \<subseteq> bad_domains w1"
        and Post = "\<lambda>x c1 w1. bad_domains w \<subseteq> bad_domains w1"])
  show "bad_domains w \<subseteq> bad_domains w" by simp
next
  fix c0 w0 fl c1 w1
  assume i: "bad_domains w \<subseteq> bad_domains w0"
    and r: "download_round (\<lambda>keyword total_needed. fetch_image_urls e keyword total_needed 3)
             (\<lambda>url folder person_name. download_image e url folder person_name 3)
             iteration search_terms folder save_name num_images threads batch_size pause_time
             c0 w0 = (fl, c1, w1)"
  have "bad_domains w0 \<subseteq> bad_domains w1" using download_round_bad_domains[OF r] .
  then have "bad_domains w \<subseteq> bad_domains w1" using i by blast
  then show "(fl = Continue \<longrightarrow> bad_domains w \<subseteq> bad_domains w1) \<and>
        (fl = Break \<longrightarrow> bad_domains w \<subseteq> bad_domains w1) \<and>
        (\<forall>exn. fl = Raise exn \<longrightarrow> bad_domains w \<subseteq> bad_domains w1)" by simp
next
  fix c0 w0
  assume "bad_domains w \<subseteq> bad_domains w0"
  then show "bad_domains w \<subseteq> bad_domains w0" .
qed

section \<open>Properties of the truncation step\<close>

text \<open>
  Whatever the iteration order of the set is, a set of more than 50000 entries is
  cut down to 25000 of its entries, and a smaller set is left as it is.
\<close>

lemma truncate_seen_length:
  assumes "mset (iteration s) = mset s" and "50000 < length s"
  shows "length (truncate_seen iteration s) = 25000"
    and "set (truncate_seen iteration s) \<subseteq> set s"
proof -
  have l: "length (iteration s) = length s" using assms(1) by (metis size_mset)
  show "length (truncate_seen iteration s) = 25000"
    using assms(2) l by (simp add: truncate_seen_def)
  have "set (iteration s) = set s" using assms(1) by (metis set_mset_mset)
  then show "set (truncate_seen iteration s) \<subseteq> set s"
    using assms(2) by (auto simp: truncate_seen_def dest: in_set_dropD)
qed

lemma truncate_seen_small:
  "length s \<le> 50000 \<Longrightarrow> truncate_seen iteration s = s"
  by (simp add: truncate_seen_def)

lemma truncate_seen_rev:
  assumes "50000 < length s"
  shows "truncate_seen rev s = rev (take 25000 s)"
proof -
  have "truncate_seen rev s = drop (length (rev s) - 25000) (rev s)"
    unfolding truncate_seen_def using assms by (simp only: if_True)
  also have "\<dots> = rev (take (length s - (length s - 25000)) s)"
    by (simp only: drop_rev length_rev)
  also have "length s - (length s - 25000) = 25000"
    using assms by linarith
  finally show ?thesis .
qed

lemma length_entries: "length (entries n) = n"
  by (simp add: entries_def)

lemma distinct_entries: "distinct (entries n)"
proof -
  have "inj_on (\<lambda>i. replicate i CHR ''u'') (set [0..<n])"
  proof (rule inj_onI)
    fix x y :: nat
    assume "replicate x CHR ''u'' = replicate y CHR ''u''"
    then have "length (replicate x CHR ''u'') = length (replicate y CHR ''u'')"
      by (rule arg_cong)
    then show "x = y" by (simp only: length_replicate)
  qed
  then show ?thesis unfolding entries_def by (simp add: distinct_map)
qed

lemma entries_split:
  assumes "k \<le> j" and "j \<le> n"
  shows "set (take k (entries n)) \<inter> set (drop j (entries n)) = {}"
proof -
  have "distinct (take j (entries n) @ drop j (entries n))"
    by (metis append_take_drop_id distinct_entries)
  then have "set (take j (entries n)) \<inter> set (drop j (entries n)) = {}"
    by (simp only: distinct_append)
  moreover have "set (take k (entries n)) \<subseteq> set (take j (entries n))"
    using assms(1) by (rule set_take_subset_set_take)
  ultimately show ?thesis by blast
qed

lemma first_entry:
  assumes "0 < k" and "k \<le> n"
  shows "[] \<in> set (take k (entries n))"
proof -
  have "0 < length (take k (entries n))" using assms by (simp add: length_entries)
  moreover have "take k (entries n) ! 0 = []"
    using assms by (simp add: entries_def)
  ultimately show ?thesis by (metis nth_mem)
qed

lemma member_nonempty: "x \<in> A \<Longrightarrow> A \<noteq> {}"
  by auto

lemma disjoint_nonempty_neq: "A \<inter> B = {} \<Longrightarrow> A \<noteq> {} \<Longrightarrow> A \<noteq> B"
  by auto


text \<open>
  Claim C7 says that the entries that survive are the 25000 inserted last. The slice
  \<^verbatim>\<open>[-25000:]\<close> takes the last entries of \<^verbatim>\<open>list(seen_urls)\<close>, which is in
  the iteration order of the set, not in the order of insertion. With 50001 entries
  and a set that iterates from the newest entry to the oldest, the step keeps the
  25000 oldest entries and none of the 25000 inserted last.
\<close>

theorem truncate_seen_keeps_oldest:
  "length (entries 50001) = 50001 \<and> distinct (entries 50001) \<and>
   mset (rev (entries 50001)) = mset (entries 50001) \<and>
   truncate_seen rev (entries 50001) = rev (take 25000 (entries 50001)) \<and>
   set (truncate_seen rev (entries 50001)) \<inter>
     set (drop (length (entries 50001) - 25000) (entries 50001)) = {} \<and>
   set (truncate_seen rev (entries 50001)) \<noteq>
     set (drop (length (entries 50001) - 25000) (entries 50001))"
proof -
  have t: "truncate_seen rev (entries 50001) = rev (take 25000 (entries 50001))"
    by (rule truncate_seen_rev) (simp add: length_entries)
  have n: "length (entries 50001) - 25000 = 25001" by (simp add: length_entries)
  have "set (take 25000 (entries 50001)) \<inter> set (drop 25001 (entries 50001)) = {}"
    by (rule entries_split) simp_all
  then have disj: "set (truncate_seen rev (entries 50001)) \<inter>
     set (drop (length (entries 50001) - 25000) (entries 50001)) = {}"
    unfolding t n by (simp only: set_rev)
  have "[] \<in> set (take 25000 (entries 50001))"
    by (rule first_entry) simp_all
  then have "set (rev (take 25000 (entries 50001))) \<noteq> {}"
    unfolding set_rev by (rule member_nonempty)
  then have "set (truncate_seen rev (entries 50001)) \<noteq> {}"
    unfolding t .
  then have ne: "set (truncate_seen rev (entries 50001)) \<noteq>
     set (drop (length (entries 50001) - 25000) (entries 50001))"
    by (rule disjoint_nonempty_neq[OF disj])
  have l: "length (entries 50001) = 50001" by (rule length_entries)
  have d: "distinct (entries 50001)" by (rule distinct_entries)
  have m: "mset (rev (entries 50001)) = mset (entries 50001)" by (rule mset_rev)
  show ?thesis
    apply (intro conjI)
    subgoal by (rule l)
    subgoal by (rule d)
    subgoal by (rule m)
    subgoal by (rule t)
    subgoal by (rule disj)
    subgoal by (rule ne)
    done
qed

end
